theory Spec2Isabelle
  imports Main "HOL-Library.AList"
begin

section \<open>Data model of App.jsx\<close>

text \<open>
  The component keeps two pieces of domain state: \<^verbatim>\<open>segments\<close>, an array of segment
  objects, and \<^verbatim>\<open>userSegments\<close>, a plain object from user ids to arrays of segment ids.

  JavaScript strings are modelled as HOL strings (code units below 256). A plain object is
  an association list read through \<open>map_of\<close>: assignment to a property is
  \<open>AList.update\<close> (overwrite in place or append), the \<^verbatim>\<open>delete\<close> operator is
  \<open>AList.delete\<close>. The enumeration order of the properties is not modelled.

  Every handler validates its arguments, then schedules its state update with
  \<^verbatim>\<open>setTimeout\<close> while a loading overlay covers the page. The handlers are modelled
  as atomic: validation and update happen on the same state. What \<^verbatim>\<open>showMessage\<close>
  displays is modelled by the result: an error kind for a message of type
  \<^verbatim>\<open>'error'\<close>, the new state for a success message.
\<close>

record segment =
  seg_id :: string
  name :: string
  description :: string
  createdAt :: string
  updatedAt :: string

type_synonym user_segments = "(string \<times> string list) list"

record app_state =
  segments :: "segment list"
  userSegments :: user_segments

text \<open>
  The kinds of failure. The code reports an empty name, a missing user id or segment and a
  percentage out of range (\<open>ValidationError\<close>) and a name that is taken
  (\<open>DuplicateNameError\<close>). \<open>TypeError\<close> is the JavaScript exception that a state
  updater throws when it calls an array method on a value that is not an array; nothing is
  recorded then. No message of the code corresponds to \<open>NotFoundError\<close>; the constructor
  exists so that statements about it can be written.
\<close>

datatype error = ValidationError | DuplicateNameError | NotFoundError | TypeError

text \<open>The state before the first operation: \<^verbatim>\<open>useState([])\<close> and \<^verbatim>\<open>useState({})\<close>.\<close>

definition initial_state :: app_state where
  "initial_state = \<lparr>segments = [], userSegments = []\<rparr>"

subsection \<open>String helpers\<close>

text \<open>
  \<^verbatim>\<open>String.prototype.trim\<close> strips white space and line terminators from both ends.
  Below code unit 256 these are TAB, LF, VT, FF, CR, SPACE and NBSP.
\<close>

definition is_ws :: "char \<Rightarrow> bool" where
  "is_ws c = (c \<in> set [CHR 0x09, CHR 0x0A, CHR 0x0B, CHR 0x0C, CHR 0x0D, CHR 0x20, CHR 0xA0])"

definition trim :: "string \<Rightarrow> string" where
  "trim s = rev (dropWhile is_ws (rev (dropWhile is_ws s)))"

text \<open>
  A number used as a property key is converted to its decimal representation
  (\<^verbatim>\<open>newSegmentsState[userId]\<close> with a numeric \<^verbatim>\<open>userId\<close>).
\<close>

definition digit_char :: "nat \<Rightarrow> char" where
  "digit_char d = ''0123456789'' ! d"

function property_key :: "nat \<Rightarrow> string" where
  "property_key n =
     (if n < 10 then [digit_char n] else property_key (n div 10) @ [digit_char (n mod 10)])"
  by pat_completeness auto
termination
  by (relation "measure (\<lambda>n. n)") auto

declare property_key.simps [simp del]

subsection \<open>Reading the membership object\<close>

text \<open>
  The array that the object holds under its own key \<open>userId\<close>, empty when it has no such
  key. The loops of the code read the object this way: the cascade visits own keys only,
  and the assignment loop reads decimal keys, which no inherited property has.
\<close>

definition lookup_segs :: "user_segments \<Rightarrow> string \<Rightarrow> string list" where
  "lookup_segs m userId = (case map_of m userId of None \<Rightarrow> [] | Some xs \<Rightarrow> xs)"

text \<open>Membership as recorded in the object: the user's own array includes the segment id.\<close>

definition is_member :: "user_segments \<Rightarrow> string \<Rightarrow> string \<Rightarrow> bool" where
  "is_member m userId segmentId = (segmentId \<in> set (lookup_segs m userId))"

text \<open>
  A read \<^verbatim>\<open>prev[userId] || []\<close> with a key that the user typed follows the prototype
  chain. The membership object is a plain object, so a key that is not its own and names a
  member of \<^verbatim>\<open>Object.prototype\<close> yields that member instead of \<^verbatim>\<open>undefined\<close>: a
  function, or for \<^verbatim>\<open>__proto__\<close> the prototype object itself. Such a value is truthy and
  is not an array; all the code can observe of it is its \<^verbatim>\<open>length\<close> (the arity of the
  function, absent for the prototype object) and that it has no array methods.
\<close>

datatype js_value = Array "string list" | NotArray "nat option"

definition object_prototype :: "(string \<times> nat option) list" where
  "object_prototype =
     [(''constructor'', Some 1), (''__defineGetter__'', Some 2), (''__defineSetter__'', Some 2),
      (''hasOwnProperty'', Some 1), (''__lookupGetter__'', Some 1), (''__lookupSetter__'', Some 1),
      (''isPrototypeOf'', Some 1), (''propertyIsEnumerable'', Some 1), (''toString'', Some 0),
      (''valueOf'', Some 0), (''__proto__'', None), (''toLocaleString'', Some 0)]"

definition prop_read :: "user_segments \<Rightarrow> string \<Rightarrow> js_value" where
  "prop_read m userId =
     (case map_of m userId of
        Some xs \<Rightarrow> Array xs
      | None \<Rightarrow>
          (case map_of object_prototype userId of
             Some len \<Rightarrow> NotArray len
           | None \<Rightarrow> Array []))"

section \<open>Segment operations\<close>

text \<open>
  \<^verbatim>\<open>handleCreateSegment\<close>. The fresh id (\<^verbatim>\<open>generateId()\<close>) and the two time stamps
  (two calls of \<^verbatim>\<open>new Date().toISOString()\<close>) are parameters. The duplicate check
  compares the stored names with \<^verbatim>\<open>name\<close> as typed; the stored name is
  \<^verbatim>\<open>name.trim()\<close>.
\<close>

definition handleCreateSegment ::
  "string \<Rightarrow> string \<Rightarrow> string \<Rightarrow> string \<Rightarrow> string \<Rightarrow> app_state \<Rightarrow> error + app_state" where
  "handleCreateSegment nameArg descriptionArg newId created updated st =
     (if trim nameArg = [] then Inl ValidationError
      else if list_ex (\<lambda>s. name s = nameArg) (segments st) then Inl DuplicateNameError
      else
        let newSegment = \<lparr>seg_id = newId, name = trim nameArg,
                          description = trim descriptionArg,
                          createdAt = created, updatedAt = updated\<rparr>
        in Inr (st\<lparr>segments := segments st @ [newSegment]\<rparr>))"

text \<open>\<^verbatim>\<open>handleUpdateSegment\<close>; \<open>now\<close> is \<^verbatim>\<open>new Date().toISOString()\<close>.\<close>

definition handleUpdateSegment ::
  "string \<Rightarrow> string \<Rightarrow> string \<Rightarrow> string \<Rightarrow> app_state \<Rightarrow> error + app_state" where
  "handleUpdateSegment ident newName newDescription now st =
     (if trim newName = [] then Inl ValidationError
      else if list_ex (\<lambda>s. name s = newName \<and> seg_id s \<noteq> ident) (segments st)
        then Inl DuplicateNameError
      else Inr (st\<lparr>segments :=
        map (\<lambda>s. if seg_id s = ident
                  then s\<lparr>name := trim newName, description := trim newDescription,
                         updatedAt := now\<rparr>
                  else s) (segments st)\<rparr>))"

text \<open>
  The updater of \<^verbatim>\<open>setUserSegments\<close> in \<^verbatim>\<open>handleDeleteSegment\<close>: a loop over the keys
  of \<^verbatim>\<open>prev\<close> that fills a new object. Every key it visits is a key of \<^verbatim>\<open>prev\<close>, so
  the default of \<open>lookup_segs\<close> is never taken.
\<close>

definition cascade_user :: "string \<Rightarrow> user_segments \<Rightarrow> string \<Rightarrow> user_segments \<Rightarrow> user_segments" where
  "cascade_user ident prev userId newState =
     (let newState1 =
            AList.update userId (filter (\<lambda>segmentId. segmentId \<noteq> ident) (lookup_segs prev userId))
              newState
      in if length (lookup_segs newState1 userId) = 0 then AList.delete userId newState1
         else newState1)"

definition cascadeDeleteSegment :: "string \<Rightarrow> user_segments \<Rightarrow> user_segments" where
  "cascadeDeleteSegment ident prev = fold (cascade_user ident prev) (map fst prev) []"

text \<open>
  \<^verbatim>\<open>handleDeleteSegment\<close>; \<open>confirmed\<close> is the answer of \<^verbatim>\<open>window.confirm\<close>, and
  \<open>nameArg\<close> only appears in the messages.
\<close>

definition handleDeleteSegment :: "string \<Rightarrow> string \<Rightarrow> bool \<Rightarrow> app_state \<Rightarrow> app_state" where
  "handleDeleteSegment ident nameArg confirmed st =
     (if confirmed
      then st\<lparr>segments := filter (\<lambda>s. seg_id s \<noteq> ident) (segments st),
              userSegments := cascadeDeleteSegment ident (userSegments st)\<rparr>
      else st)"

section \<open>Membership operations\<close>

text \<open>
  \<^verbatim>\<open>handleAddUserToSegment\<close>. \<^verbatim>\<open>!userId\<close> holds of a string exactly when it is empty.
  On a value that is not an array \<^verbatim>\<open>currentSegments.includes\<close> is not a function and the
  updater throws.
\<close>

definition handleAddUserToSegment :: "string \<Rightarrow> string \<Rightarrow> app_state \<Rightarrow> error + app_state" where
  "handleAddUserToSegment userId segmentId st =
     (if userId = [] \<or> segmentId = [] then Inl ValidationError
      else
        let prev = userSegments st in
        case prop_read prev userId of
          NotArray len \<Rightarrow> Inl TypeError
        | Array currentSegments \<Rightarrow>
            if segmentId \<notin> set currentSegments
            then Inr (st\<lparr>userSegments :=
                        AList.update userId (currentSegments @ [segmentId]) prev\<rparr>)
            else Inr (st\<lparr>userSegments := prev\<rparr>))"

text \<open>
  \<^verbatim>\<open>handleRemoveUserFromSegment\<close>. On a value that is not an array
  \<^verbatim>\<open>currentSegments.filter\<close> is not a function and the updater throws.
\<close>

definition handleRemoveUserFromSegment :: "string \<Rightarrow> string \<Rightarrow> app_state \<Rightarrow> error + app_state" where
  "handleRemoveUserFromSegment userId segmentId st =
     (if userId = [] \<or> segmentId = [] then Inl ValidationError
      else
        let prev = userSegments st in
        case prop_read prev userId of
          NotArray len \<Rightarrow> Inl TypeError
        | Array currentSegments \<Rightarrow>
            let newSegments = filter (\<lambda>i. i \<noteq> segmentId) currentSegments
            in if length newSegments = 0
               then Inr (st\<lparr>userSegments := AList.delete userId prev\<rparr>)
               else Inr (st\<lparr>userSegments := AList.update userId newSegments prev\<rparr>))"

text \<open>
  \<^verbatim>\<open>handleAssignRandomUsers\<close>. \<open>assign_user\<close> is the body of the \<^verbatim>\<open>forEach\<close>, on the
  pair of \<^verbatim>\<open>newSegmentsState\<close> and \<^verbatim>\<open>assignedCount\<close>. The percentage comes from
  \<^verbatim>\<open>parseInt\<close> and is modelled as an integer (\<^verbatim>\<open>NaN\<close>, which an empty field
  yields, is left out).

  The callback declares \<^verbatim>\<open>let assignedCount = 0\<close>, passes the updater that increments
  it to \<^verbatim>\<open>setUserSegments\<close> and then reads \<^verbatim>\<open>assignedCount\<close> for the message.
  \<^verbatim>\<open>setUserSegments\<close> only queues the updater; it runs when the component next renders,
  after the callback has returned. The count that the handler reports is therefore the
  value from the declaration, and the counter of the loop is never read.
\<close>

definition allPossibleUserIds :: "nat list" where
  "allPossibleUserIds = map (\<lambda>i. i + 1) [0..<1000]"

definition assign_user :: "string \<Rightarrow> int \<Rightarrow> nat \<Rightarrow> user_segments \<times> nat \<Rightarrow> user_segments \<times> nat" where
  "assign_user segmentId percentage userId acc =
     (case acc of (newSegmentsState, assignedCount) \<Rightarrow>
        let hash = userId mod 100 in
        if int hash < percentage then
          (let currentSegments = lookup_segs newSegmentsState (property_key userId) in
           if segmentId \<notin> set currentSegments
           then (AList.update (property_key userId) (currentSegments @ [segmentId]) newSegmentsState,
                 assignedCount + 1)
           else (newSegmentsState, assignedCount))
        else
          (let currentSegments = lookup_segs newSegmentsState (property_key userId);
               newState1 = AList.update (property_key userId)
                             (filter (\<lambda>i. i \<noteq> segmentId) currentSegments) newSegmentsState
           in if length (lookup_segs newState1 (property_key userId)) = 0
              then (AList.delete (property_key userId) newState1, assignedCount)
              else (newState1, assignedCount)))"

definition handleAssignRandomUsers :: "string \<Rightarrow> int \<Rightarrow> app_state \<Rightarrow> error + (nat \<times> app_state)" where
  "handleAssignRandomUsers segmentId percentage st =
     (if segmentId = [] then Inl ValidationError
      else if percentage < 0 \<or> percentage > 100 then Inl ValidationError
      else
        let assignedCount = 0;
            newSegmentsState =
              fst (fold (assign_user segmentId percentage) allPossibleUserIds
                     (userSegments st, assignedCount))
        in Inr (assignedCount, st\<lparr>userSegments := newSegmentsState\<rparr>))"

text \<open>
  \<^verbatim>\<open>handleLookup\<close> of the lookup panel: the segments found and which message is shown.
  For a value that is not an array, \<^verbatim>\<open>userSegmentsIds.length === 0\<close> holds of a function
  without parameters; otherwise \<^verbatim>\<open>segments.filter\<close> calls
  \<^verbatim>\<open>userSegmentsIds.includes\<close> for the first segment, which throws, and with no segment
  stored it returns the empty array.
\<close>

datatype lookup_message = EnterUserId | NoSegments | NoMessage

definition handleLookup ::
  "string \<Rightarrow> segment list \<Rightarrow> user_segments \<Rightarrow> error + (segment list \<times> lookup_message)" where
  "handleLookup lookupUserId segs userSegmentsMapping =
     (if lookupUserId = [] then Inr ([], EnterUserId)
      else
        case prop_read userSegmentsMapping lookupUserId of
          Array userSegmentsIds \<Rightarrow>
            if length userSegmentsIds = 0 then Inr ([], NoSegments)
            else Inr (filter (\<lambda>s. seg_id s \<in> set userSegmentsIds) segs, NoMessage)
        | NotArray len \<Rightarrow>
            if len = Some 0 then Inr ([], NoSegments)
            else if segs = [] then Inr ([], NoMessage)
            else Inl TypeError)"

text \<open>The segments that a lookup returns: none when it throws.\<close>

definition found_segments :: "error + (segment list \<times> lookup_message) \<Rightarrow> segment list" where
  "found_segments r = (case r of Inl e \<Rightarrow> [] | Inr (found, msg) \<Rightarrow> found)"

text \<open>
  The state that a handler leaves behind: unchanged when it reports an error or its
  updater throws.
\<close>

definition state_after :: "error + app_state \<Rightarrow> app_state \<Rightarrow> app_state" where
  "state_after r st = (case r of Inl e \<Rightarrow> st | Inr st' \<Rightarrow> st')"

definition state_after_assign :: "error + (nat \<times> app_state) \<Rightarrow> app_state \<Rightarrow> app_state" where
  "state_after_assign r st = (case r of Inl e \<Rightarrow> st | Inr (n, st') \<Rightarrow> st')"

definition after_add :: "string \<Rightarrow> string \<Rightarrow> app_state \<Rightarrow> app_state" where
  "after_add userId segmentId st = state_after (handleAddUserToSegment userId segmentId st) st"

definition after_remove :: "string \<Rightarrow> string \<Rightarrow> app_state \<Rightarrow> app_state" where
  "after_remove userId segmentId st =
     state_after (handleRemoveUserFromSegment userId segmentId st) st"

section \<open>Properties used in the statements\<close>

text \<open>
  Referential integrity of the membership object: every segment id that some user holds is
  the id of a segment in \<^verbatim>\<open>segments\<close>.
\<close>

definition memberships_live :: "app_state \<Rightarrow> bool" where
  "memberships_live st =
     list_all (\<lambda>userId.
        list_all (\<lambda>segmentId. list_ex (\<lambda>s. seg_id s = segmentId) (segments st))
          (lookup_segs (userSegments st) userId))
       (map fst (userSegments st))"

text \<open>What the cascade of a deletion leaves under one key.\<close>

definition cascade_val :: "string \<Rightarrow> user_segments \<Rightarrow> string \<Rightarrow> string list option" where
  "cascade_val ident prev k =
     (let v = filter (\<lambda>segmentId. segmentId \<noteq> ident) (lookup_segs prev k)
      in if v = [] then None else Some v)"

text \<open>What one round of the assignment loop leaves in the array of user \<open>u\<close>.\<close>

definition assign_segs :: "string \<Rightarrow> int \<Rightarrow> nat \<Rightarrow> string list \<Rightarrow> string list" where
  "assign_segs segmentId percentage u cur =
     (if int (u mod 100) < percentage
      then (if segmentId \<in> set cur then cur else cur @ [segmentId])
      else filter (\<lambda>i. i \<noteq> segmentId) cur)"

text \<open>
  User \<open>u\<close> is settled when the membership object already agrees with the bucket of
  \<open>u\<close>: a further round of the loop changes nothing.
\<close>

definition settled :: "string \<Rightarrow> int \<Rightarrow> user_segments \<Rightarrow> nat \<Rightarrow> bool" where
  "settled seg p m u =
     (if int (u mod 100) < p then seg \<in> set (lookup_segs m (property_key u))
      else seg \<notin> set (lookup_segs m (property_key u)) \<and> map_of m (property_key u) \<noteq> Some [])"

text \<open>
  A read \<^verbatim>\<open>prev[userId] || []\<close> yields an array: the key is an own key of the object, or
  it names no member of \<^verbatim>\<open>Object.prototype\<close>.
\<close>

definition reads_array :: "user_segments \<Rightarrow> string \<Rightarrow> bool" where
  "reads_array m userId = (case prop_read m userId of Array xs \<Rightarrow> True | NotArray len \<Rightarrow> False)"

text \<open>
  Example states: one segment \<^verbatim>\<open>BETA\<close> with user 42 in it; the same segment with no
  member yet; and a state where user 42 is also in another segment and user 1001 is
  outside the candidate range.
\<close>

definition beta_segment :: segment where
  "beta_segment = \<lparr>seg_id = ''s1'', name = ''BETA'', description = ''Beta testers'',
                    createdAt = ''t1'', updatedAt = ''t1''\<rparr>"

definition fresh_beta_state :: app_state where
  "fresh_beta_state = \<lparr>segments = [beta_segment], userSegments = []\<rparr>"

definition beta_state :: app_state where
  "beta_state = \<lparr>segments = [beta_segment], userSegments = [(''42'', [''s1''])]\<rparr>"

definition two_segment_state :: app_state where
  "two_segment_state =
     \<lparr>segments = [beta_segment,
                  \<lparr>seg_id = ''s2'', name = ''GAMMA'', description = '''',
                   createdAt = ''t2'', updatedAt = ''t2''\<rparr>],
      userSegments = [(''42'', [''s1'', ''s2'']), (''1001'', [''s1''])]\<rparr>"

section \<open>Auxiliary facts\<close>

subsection \<open>Lists and the membership object\<close>

lemma filter_fresh: "s \<notin> set xs \<Longrightarrow> filter (\<lambda>i. i \<noteq> s) xs = xs"
  by (induction xs) auto

lemma filter_neq_Nil_iff: "filter (\<lambda>i. i \<noteq> s) xs = [] \<longleftrightarrow> set xs \<subseteq> {s}"
  by (induction xs) auto

lemma lookup_segs_update:
  "lookup_segs (AList.update k v m) k' = (if k' = k then v else lookup_segs m k')"
  by (simp add: lookup_segs_def update_conv')

lemma lookup_segs_delete:
  "lookup_segs (AList.delete k m) k' = (if k' = k then [] else lookup_segs m k')"
  by (simp add: lookup_segs_def delete_conv')

lemma lookup_segs_cong: "map_of m k = map_of m' k \<Longrightarrow> lookup_segs m k = lookup_segs m' k"
  by (simp add: lookup_segs_def)

lemma lookup_segs_absent: "k \<notin> fst ` set m \<Longrightarrow> lookup_segs m k = []"
  by (simp add: lookup_segs_def map_of_eq_None_iff[THEN iffD2])

lemma lookup_segs_Nil_cases:
  "lookup_segs m k = [] \<Longrightarrow> map_of m k = None \<or> map_of m k = Some []"
  by (auto simp: lookup_segs_def split: option.splits)

lemma lookup_segs_Some: "lookup_segs m k \<noteq> [] \<Longrightarrow> map_of m k = Some (lookup_segs m k)"
  by (auto simp: lookup_segs_def split: option.splits)

subsection \<open>Reads that follow the prototype chain\<close>

lemma reads_array_iff:
  "reads_array m k \<longleftrightarrow> (k \<in> fst ` set m \<or> k \<notin> fst ` set object_prototype)"
proof -
  have a: "k \<in> fst ` set m \<longleftrightarrow> map_of m k \<noteq> None"
    by (simp add: map_of_eq_None_iff)
  have b: "k \<notin> fst ` set object_prototype \<longleftrightarrow> map_of object_prototype k = None"
    by (simp add: map_of_eq_None_iff)
  show ?thesis
    unfolding a b by (auto simp: reads_array_def prop_read_def split: option.splits)
qed

lemma prop_read_Array: "reads_array m k \<Longrightarrow> prop_read m k = Array (lookup_segs m k)"
  by (auto simp: reads_array_def prop_read_def lookup_segs_def split: option.splits)

lemma prop_read_NotArray: "\<not> reads_array m k \<Longrightarrow> \<exists>len. prop_read m k = NotArray len"
  by (cases "prop_read m k") (simp_all add: reads_array_def)

lemma not_reads_array_None: "\<not> reads_array m k \<Longrightarrow> map_of m k = None"
  by (auto simp: reads_array_def prop_read_def split: option.splits)

lemma not_reads_array_lookup: "\<not> reads_array m k \<Longrightarrow> lookup_segs m k = []"
  by (simp add: lookup_segs_def not_reads_array_None)

lemma reads_array_update: "reads_array (AList.update k v m) k"
  by (simp add: reads_array_iff dom_update)

lemma after_add_eq:
  "after_add u s st =
     (if u = [] \<or> s = [] \<or> \<not> reads_array (userSegments st) u \<or>
         s \<in> set (lookup_segs (userSegments st) u)
      then st
      else st\<lparr>userSegments :=
                AList.update u (lookup_segs (userSegments st) u @ [s]) (userSegments st)\<rparr>)"
proof (cases "reads_array (userSegments st) u")
  case True
  then show ?thesis
    by (simp add: after_add_def handleAddUserToSegment_def state_after_def Let_def
        prop_read_Array)
next
  case False
  then obtain len where "prop_read (userSegments st) u = NotArray len"
    using prop_read_NotArray by blast
  with False show ?thesis
    by (simp add: after_add_def handleAddUserToSegment_def state_after_def Let_def)
qed

lemma after_remove_eq:
  "after_remove u s st =
     (if u = [] \<or> s = [] \<or> \<not> reads_array (userSegments st) u then st
      else if filter (\<lambda>i. i \<noteq> s) (lookup_segs (userSegments st) u) = []
      then st\<lparr>userSegments := AList.delete u (userSegments st)\<rparr>
      else st\<lparr>userSegments :=
                AList.update u (filter (\<lambda>i. i \<noteq> s) (lookup_segs (userSegments st) u))
                  (userSegments st)\<rparr>)"
proof (cases "reads_array (userSegments st) u")
  case True
  then show ?thesis
    by (simp add: after_remove_def handleRemoveUserFromSegment_def state_after_def Let_def
        prop_read_Array)
next
  case False
  then obtain len where "prop_read (userSegments st) u = NotArray len"
    using prop_read_NotArray by blast
  with False show ?thesis
    by (simp add: after_remove_def handleRemoveUserFromSegment_def state_after_def Let_def)
qed

subsection \<open>Decimal keys\<close>

lemma digit_char_inj: "a < 10 \<Longrightarrow> b < 10 \<Longrightarrow> digit_char a = digit_char b \<Longrightarrow> a = b"
  unfolding digit_char_def
  by (auto simp: less_Suc_eq numeral_eq_Suc nth_Cons')

lemma property_key_nonempty: "property_key n \<noteq> []"
  by (subst property_key.simps) simp

lemma property_key_inj: "property_key n = property_key m \<Longrightarrow> n = m"
proof (induction n arbitrary: m rule: property_key.induct)
  case (1 n)
  show ?case
  proof (cases "n < 10")
    case small: True
    show ?thesis
    proof (cases "m < 10")
      case True
      with small "1.prems" show ?thesis
        by (simp add: property_key.simps[of n] property_key.simps[of m] digit_char_inj)
    next
      case False
      with small "1.prems" show ?thesis
        by (simp add: property_key.simps[of n] property_key.simps[of m]
            property_key_nonempty [THEN not_sym])
    qed
  next
    case big: False
    show ?thesis
    proof (cases "m < 10")
      case True
      with big "1.prems" show ?thesis
        by (simp add: property_key.simps[of n] property_key.simps[of m] property_key_nonempty)
    next
      case False
      with big "1.prems" have e: "property_key (n div 10) = property_key (m div 10)"
        and d: "digit_char (n mod 10) = digit_char (m mod 10)"
        by (simp_all add: property_key.simps[of n] property_key.simps[of m])
      from "1.IH"[OF big e] have "n div 10 = m div 10" .
      moreover from d have "n mod 10 = m mod 10" by (simp add: digit_char_inj)
      ultimately show ?thesis by (metis div_mult_mod_eq)
    qed
  qed
qed

lemma digit_char_digit: "d < 10 \<Longrightarrow> digit_char d \<in> set ''0123456789''"
proof -
  assume "d < 10"
  then have "d < length ''0123456789''" by simp
  then show ?thesis unfolding digit_char_def by (rule nth_mem)
qed

lemma last_property_key: "last (property_key n) = digit_char (n mod 10)"
  by (subst property_key.simps) simp

lemma object_prototype_last:
  "k \<in> fst ` set object_prototype \<Longrightarrow> last k \<notin> set ''0123456789''"
  by (auto simp: object_prototype_def)

lemma property_key_not_inherited: "property_key n \<notin> fst ` set object_prototype"
proof
  assume "property_key n \<in> fst ` set object_prototype"
  then have "last (property_key n) \<notin> set ''0123456789''" by (rule object_prototype_last)
  moreover have "last (property_key n) \<in> set ''0123456789''"
    unfolding last_property_key by (rule digit_char_digit) simp
  ultimately show False by contradiction
qed

text \<open>
  Hence the read \<^verbatim>\<open>newSegmentsState[userId] || []\<close> of the assignment loop always
  yields the own array of the key, or the empty array.
\<close>

lemma prop_read_property_key:
  "prop_read m (property_key n) = Array (lookup_segs m (property_key n))"
  by (rule prop_read_Array) (simp add: reads_array_iff property_key_not_inherited)

lemma distinct_allPossibleUserIds: "distinct allPossibleUserIds"
  by (simp add: allPossibleUserIds_def distinct_map)

lemma set_allPossibleUserIds: "set allPossibleUserIds = {1..1000}"
proof -
  have "set allPossibleUserIds = Suc ` {0..<1000}" by (simp add: allPossibleUserIds_def)
  also have "\<dots> = {1..1000}" by (simp only: image_Suc_atLeastLessThan) auto
  finally show ?thesis .
qed

lemma allPossibleUserIds_upt: "allPossibleUserIds = [1..<1001]"
  unfolding allPossibleUserIds_def
  using map_Suc_upt[of 0 1000] by simp

subsection \<open>The cascade of a deletion\<close>

lemma map_of_cascade_user:
  "map_of (cascade_user ident prev u new) k =
     (if k = u then cascade_val ident prev u else map_of new k)"
  by (simp add: cascade_user_def cascade_val_def Let_def lookup_segs_update update_conv' delete_conv')

lemma map_of_fold_cascade_user:
  "map_of (fold (cascade_user ident prev) ks new) k =
     (if k \<in> set ks then cascade_val ident prev k else map_of new k)"
  by (induction ks arbitrary: new) (auto simp: map_of_cascade_user)

lemma map_of_cascadeDeleteSegment:
  "map_of (cascadeDeleteSegment ident prev) k = cascade_val ident prev k"
proof (cases "k \<in> fst ` set prev")
  case True
  then show ?thesis by (simp add: cascadeDeleteSegment_def map_of_fold_cascade_user)
next
  case False
  then have "map_of prev k = None" by (simp add: map_of_eq_None_iff)
  then have "cascade_val ident prev k = None"
    by (simp add: cascade_val_def lookup_segs_def)
  with False show ?thesis by (simp add: cascadeDeleteSegment_def map_of_fold_cascade_user)
qed

lemma lookup_segs_cascadeDeleteSegment:
  "lookup_segs (cascadeDeleteSegment ident prev) k =
     filter (\<lambda>segmentId. segmentId \<noteq> ident) (lookup_segs prev k)"
  by (simp add: lookup_segs_def[of "cascadeDeleteSegment ident prev"] map_of_cascadeDeleteSegment
      cascade_val_def Let_def)

lemma is_member_cascade:
  "is_member (cascadeDeleteSegment ident prev) u s = (s \<noteq> ident \<and> is_member prev u s)"
  by (auto simp: is_member_def lookup_segs_cascadeDeleteSegment)

lemma cascade_no_empty: "map_of (cascadeDeleteSegment ident prev) k \<noteq> Some []"
  by (simp add: map_of_cascadeDeleteSegment cascade_val_def Let_def)

lemma distinct_cascade_user:
  "distinct (map fst new) \<Longrightarrow> distinct (map fst (cascade_user ident prev u new))"
  by (simp add: cascade_user_def Let_def distinct_update distinct_delete)

lemma distinct_fold_cascade_user:
  "distinct (map fst new) \<Longrightarrow> distinct (map fst (fold (cascade_user ident prev) ks new))"
  by (induction ks arbitrary: new) (simp_all add: distinct_cascade_user)

lemma distinct_cascadeDeleteSegment: "distinct (map fst (cascadeDeleteSegment ident prev))"
  by (simp add: cascadeDeleteSegment_def distinct_fold_cascade_user)

lemma cascade_entries_nonempty:
  "(u, xs) \<in> set (cascadeDeleteSegment ident prev) \<Longrightarrow> xs \<noteq> []"
proof
  assume "(u, xs) \<in> set (cascadeDeleteSegment ident prev)" and "xs = []"
  with distinct_cascadeDeleteSegment[of ident prev]
  have "map_of (cascadeDeleteSegment ident prev) u = Some []"
    by (simp add: map_of_is_SomeI)
  then show False by (simp add: cascade_no_empty)
qed

subsection \<open>One round of the assignment loop\<close>

lemma assign_segs_other:
  "t \<noteq> seg \<Longrightarrow> t \<in> set (assign_segs seg p u cur) \<longleftrightarrow> t \<in> set cur"
  by (auto simp: assign_segs_def)

lemma assign_segs_target:
  "seg \<in> set (assign_segs seg p u cur) \<longleftrightarrow> int (u mod 100) < p"
  by (auto simp: assign_segs_def)

lemma assign_user_other:
  "k \<noteq> property_key u \<Longrightarrow> map_of (fst (assign_user seg p u (m, c))) k = map_of m k"
  by (simp add: assign_user_def Let_def update_conv' delete_conv')

lemma assign_user_same:
  "lookup_segs (fst (assign_user seg p u (m, c))) (property_key u) =
     assign_segs seg p u (lookup_segs m (property_key u))"
  by (simp add: assign_user_def assign_segs_def Let_def lookup_segs_update lookup_segs_delete)

lemma assign_user_no_empty:
  "\<not> int (u mod 100) < p \<Longrightarrow>
     map_of (fst (assign_user seg p u (m, c))) (property_key u) \<noteq> Some []"
  by (simp add: assign_user_def Let_def lookup_segs_update update_conv' delete_conv')

lemma assign_user_count:
  "snd (assign_user seg p u (m, c)) =
     c + (if int (u mod 100) < p \<and> seg \<notin> set (lookup_segs m (property_key u)) then 1 else 0)"
  by (simp add: assign_user_def Let_def)

lemma assign_user_settled:
  assumes "settled seg p m u"
  shows "assign_user seg p u (m, c) = (m, c)"
proof (cases "int (u mod 100) < p")
  case True
  with assms show ?thesis by (simp add: settled_def assign_user_def Let_def)
next
  case False
  let ?k = "property_key u"
  let ?cur = "lookup_segs m ?k"
  from assms False have fresh: "seg \<notin> set ?cur" and ne: "map_of m ?k \<noteq> Some []"
    by (simp_all add: settled_def)
  show ?thesis
  proof (cases "?cur = []")
    case True
    with ne have "map_of m ?k = None" by (auto dest: lookup_segs_Nil_cases)
    then have "?k \<notin> fst ` set m" by (simp add: map_of_eq_None_iff)
    with False True show ?thesis
      by (simp add: assign_user_def Let_def lookup_segs_update delete_update_same)
  next
    case nonempty: False
    then have "map_of m ?k = Some ?cur" by (rule lookup_segs_Some)
    then have "AList.update ?k ?cur m = m" by (rule update_triv)
    with False fresh nonempty show ?thesis
      by (simp add: assign_user_def Let_def lookup_segs_update filter_fresh)
  qed
qed

subsection \<open>The whole assignment loop\<close>

lemma fold_assign_other:
  "k \<notin> property_key ` set us \<Longrightarrow>
     map_of (fst (fold (assign_user seg p) us (m, c))) k = map_of m k"
proof (induction us arbitrary: m c)
  case Nil
  then show ?case by simp
next
  case (Cons a us)
  obtain m' c' where step: "assign_user seg p a (m, c) = (m', c')"
    by (cases "assign_user seg p a (m, c)")
  from Cons.prems have "k \<noteq> property_key a" "k \<notin> property_key ` set us" by auto
  with Cons.IH[of m' c'] assign_user_other[of k a seg p m c] step show ?case by simp
qed

lemma fold_assign_same:
  "distinct us \<Longrightarrow> u \<in> set us \<Longrightarrow>
     lookup_segs (fst (fold (assign_user seg p) us (m, c))) (property_key u) =
       assign_segs seg p u (lookup_segs m (property_key u))"
proof (induction us arbitrary: m c)
  case Nil
  then show ?case by simp
next
  case (Cons a us)
  obtain m' c' where step: "assign_user seg p a (m, c) = (m', c')"
    by (cases "assign_user seg p a (m, c)")
  show ?case
  proof (cases "u = a")
    case True
    with Cons.prems have "property_key u \<notin> property_key ` set us"
      by (auto dest: property_key_inj)
    then have "map_of (fst (fold (assign_user seg p) us (m', c'))) (property_key u)
                 = map_of m' (property_key u)"
      by (rule fold_assign_other)
    then have "lookup_segs (fst (fold (assign_user seg p) us (m', c'))) (property_key u)
                 = lookup_segs m' (property_key u)"
      by (rule lookup_segs_cong)
    with step True assign_user_same[of seg p a m c] show ?thesis by simp
  next
    case False
    with Cons.prems have "u \<in> set us" "distinct us" by auto
    from Cons.IH[OF this(2) this(1), of m' c']
    have "lookup_segs (fst (fold (assign_user seg p) us (m', c'))) (property_key u) =
          assign_segs seg p u (lookup_segs m' (property_key u))" .
    moreover from False have "property_key u \<noteq> property_key a" by (auto dest: property_key_inj)
    then have "map_of m' (property_key u) = map_of m (property_key u)"
      using assign_user_other[of "property_key u" a seg p m c] step by simp
    then have "lookup_segs m' (property_key u) = lookup_segs m (property_key u)"
      by (rule lookup_segs_cong)
    ultimately show ?thesis using step by simp
  qed
qed

lemma fold_assign_no_empty:
  "distinct us \<Longrightarrow> u \<in> set us \<Longrightarrow> \<not> int (u mod 100) < p \<Longrightarrow>
     map_of (fst (fold (assign_user seg p) us (m, c))) (property_key u) \<noteq> Some []"
proof (induction us arbitrary: m c)
  case Nil
  then show ?case by simp
next
  case (Cons a us)
  obtain m' c' where step: "assign_user seg p a (m, c) = (m', c')"
    by (cases "assign_user seg p a (m, c)")
  show ?case
  proof (cases "u = a")
    case True
    with Cons.prems have "property_key u \<notin> property_key ` set us"
      by (auto dest: property_key_inj)
    then have "map_of (fst (fold (assign_user seg p) us (m', c'))) (property_key u)
                 = map_of m' (property_key u)"
      by (rule fold_assign_other)
    with step True assign_user_no_empty[of a p seg m c] Cons.prems(3) show ?thesis by simp
  next
    case False
    with Cons.prems have "u \<in> set us" "distinct us" by auto
    from Cons.IH[OF this(2) this(1) Cons.prems(3), of m' c'] step show ?thesis by simp
  qed
qed

lemma fold_assign_count:
  "distinct us \<Longrightarrow>
     snd (fold (assign_user seg p) us (m, c)) =
       c + length (filter (\<lambda>u. int (u mod 100) < p \<and>
                               seg \<notin> set (lookup_segs m (property_key u))) us)"
proof (induction us arbitrary: m c)
  case Nil
  then show ?case by simp
next
  case (Cons a us)
  obtain m' c' where step: "assign_user seg p a (m, c) = (m', c')"
    by (cases "assign_user seg p a (m, c)")
  from Cons.prems have d: "distinct us" and a: "a \<notin> set us" by auto
  have same: "lookup_segs m' (property_key u) = lookup_segs m (property_key u)"
    if "u \<in> set us" for u
  proof -
    from that a have "property_key u \<noteq> property_key a" by (auto dest: property_key_inj)
    then have "map_of m' (property_key u) = map_of m (property_key u)"
      using assign_user_other[of "property_key u" a seg p m c] step by simp
    then show ?thesis by (rule lookup_segs_cong)
  qed
  have "filter (\<lambda>u. int (u mod 100) < p \<and> seg \<notin> set (lookup_segs m' (property_key u))) us =
        filter (\<lambda>u. int (u mod 100) < p \<and> seg \<notin> set (lookup_segs m (property_key u))) us"
    by (rule filter_cong) (simp_all add: same)
  moreover have "c' = c + (if int (a mod 100) < p \<and>
                              seg \<notin> set (lookup_segs m (property_key a)) then 1 else 0)"
    using assign_user_count[of seg p a m c] step by simp
  ultimately show ?case using Cons.IH[OF d, of m' c'] step by simp
qed

lemma fold_assign_settled:
  "\<forall>u \<in> set us. settled seg p m u \<Longrightarrow> fold (assign_user seg p) us (m, c) = (m, c)"
  by (induction us) (simp_all add: assign_user_settled)

lemma settled_after_fold:
  assumes "u \<in> set allPossibleUserIds"
  shows "settled seg p (fst (fold (assign_user seg p) allPossibleUserIds (m, c))) u"
proof -
  have same: "lookup_segs (fst (fold (assign_user seg p) allPossibleUserIds (m, c)))
                (property_key u) = assign_segs seg p u (lookup_segs m (property_key u))"
    using distinct_allPossibleUserIds assms by (rule fold_assign_same)
  show ?thesis
  proof (cases "int (u mod 100) < p")
    case True
    then show ?thesis by (simp add: settled_def same assign_segs_target)
  next
    case False
    with fold_assign_no_empty[OF distinct_allPossibleUserIds assms False, of seg m c]
    show ?thesis by (simp add: settled_def same assign_segs_target)
  qed
qed

lemma is_member_fold_assign_other:
  assumes "t \<noteq> seg"
  shows "is_member (fst (fold (assign_user seg p) allPossibleUserIds (m, c))) k t
           = is_member m k t"
proof (cases "k \<in> property_key ` set allPossibleUserIds")
  case True
  then obtain u where u: "u \<in> set allPossibleUserIds" "k = property_key u" by auto
  from fold_assign_same[OF distinct_allPossibleUserIds u(1), of seg p m c] assms u(2)
  show ?thesis by (simp add: is_member_def assign_segs_other)
next
  case False
  from fold_assign_other[OF this, of seg p m c] show ?thesis
    by (simp add: is_member_def lookup_segs_def)
qed

lemma is_member_fold_assign_target:
  "u \<in> {1..1000} \<Longrightarrow>
     is_member (fst (fold (assign_user seg p) allPossibleUserIds (m, c))) (property_key u) seg
       = (int (u mod 100) < p)"
  using fold_assign_same[OF distinct_allPossibleUserIds, of u seg p m c]
  by (simp add: is_member_def set_allPossibleUserIds assign_segs_target)

lemma handleAssignRandomUsers_ok:
  "segmentId \<noteq> [] \<Longrightarrow> 0 \<le> percentage \<Longrightarrow> percentage \<le> 100 \<Longrightarrow>
     handleAssignRandomUsers segmentId percentage st =
       Inr (0,
            st\<lparr>userSegments :=
              fst (fold (assign_user segmentId percentage) allPossibleUserIds
                     (userSegments st, 0))\<rparr>)"
  by (simp add: handleAssignRandomUsers_def Let_def)

lemma userSegments_after_assign:
  "userSegments (state_after_assign (handleAssignRandomUsers segmentId percentage st) st) =
     (if segmentId = [] \<or> percentage < 0 \<or> percentage > 100 then userSegments st
      else fst (fold (assign_user segmentId percentage) allPossibleUserIds (userSegments st, 0)))"
  by (simp add: handleAssignRandomUsers_def state_after_assign_def Let_def)

lemma segments_after_assign:
  "segments (state_after_assign (handleAssignRandomUsers segmentId percentage st) st)
     = segments st"
  by (simp add: handleAssignRandomUsers_def state_after_assign_def Let_def)

subsection \<open>Referential integrity, read through membership\<close>

lemma memberships_live_iff:
  "memberships_live st \<longleftrightarrow>
     (\<forall>u s. is_member (userSegments st) u s \<longrightarrow> s \<in> seg_id ` set (segments st))"
proof
  assume live: "memberships_live st"
  show "\<forall>u s. is_member (userSegments st) u s \<longrightarrow> s \<in> seg_id ` set (segments st)"
  proof (intro allI impI)
    fix u s
    assume mem: "is_member (userSegments st) u s"
    then have "lookup_segs (userSegments st) u \<noteq> []" by (auto simp: is_member_def)
    then have "u \<in> fst ` set (userSegments st)" using lookup_segs_absent by blast
    moreover from live have "\<forall>k \<in> fst ` set (userSegments st).
        \<forall>s \<in> set (lookup_segs (userSegments st) k). s \<in> seg_id ` set (segments st)"
      by (fastforce simp: memberships_live_def list_all_iff list_ex_iff)
    ultimately show "s \<in> seg_id ` set (segments st)"
      using mem by (auto simp: is_member_def)
  qed
next
  assume "\<forall>u s. is_member (userSegments st) u s \<longrightarrow> s \<in> seg_id ` set (segments st)"
  then show "memberships_live st"
    by (auto simp: memberships_live_def list_all_iff list_ex_iff is_member_def)
qed

lemma seg_ids_map_update:
  "seg_id ` set (map (\<lambda>s. if P s then s\<lparr>name := a, description := b, updatedAt := c\<rparr> else s) xs)
     = seg_id ` set xs"
  by (induction xs) auto

lemma segments_after_update:
  "segments (state_after (handleUpdateSegment ident newName newDescription now st) st)
     = segments st \<or>
   segments (state_after (handleUpdateSegment ident newName newDescription now st) st) =
     map (\<lambda>s. if seg_id s = ident
                  then s\<lparr>name := trim newName, description := trim newDescription,
                         updatedAt := now\<rparr>
                  else s) (segments st)"
  by (simp add: handleUpdateSegment_def state_after_def)

lemma seg_ids_after_update:
  "seg_id ` set (segments (state_after (handleUpdateSegment ident newName newDescription now st) st))
     = seg_id ` set (segments st)"
proof -
  from segments_after_update[of ident newName newDescription now st] show ?thesis
  proof
    assume "segments (state_after (handleUpdateSegment ident newName newDescription now st) st)
              = segments st"
    then show ?thesis by (simp only:)
  next
    assume "segments (state_after (handleUpdateSegment ident newName newDescription now st) st) =
      map (\<lambda>s. if seg_id s = ident
                  then s\<lparr>name := trim newName, description := trim newDescription,
                         updatedAt := now\<rparr>
                  else s) (segments st)"
    then show ?thesis by (simp only: seg_ids_map_update)
  qed
qed

lemma userSegments_after_update:
  "userSegments (state_after (handleUpdateSegment ident newName newDescription now st) st)
     = userSegments st"
  by (simp add: handleUpdateSegment_def state_after_def)

lemma segments_after_remove:
  "segments (after_remove userId segmentId st) = segments st"
  by (simp add: after_remove_eq)

lemma segments_after_add:
  "segments (after_add userId segmentId st) = segments st"
  by (simp add: after_add_eq)

lemma is_member_after_remove:
  "is_member (userSegments (after_remove userId segmentId st)) u s
     \<Longrightarrow> is_member (userSegments st) u s"
  by (auto simp: after_remove_eq is_member_def lookup_segs_update lookup_segs_delete
      split: if_splits)

lemma is_member_after_add:
  "is_member (userSegments (after_add userId segmentId st)) u s
     \<Longrightarrow> is_member (userSegments st) u s \<or> s = segmentId"
  by (auto simp: after_add_eq is_member_def lookup_segs_update split: if_splits)

lemma is_member_after_assign:
  "is_member (userSegments (state_after_assign
       (handleAssignRandomUsers segmentId percentage st) st)) u s
     \<Longrightarrow> is_member (userSegments st) u s \<or> s = segmentId"
  by (cases "s = segmentId")
     (auto simp: userSegments_after_assign is_member_fold_assign_other split: if_splits)

lemma map_no_match: "\<forall>x \<in> set xs. \<not> P x \<Longrightarrow> map (\<lambda>s. if P s then f s else s) xs = xs"
  by (induction xs) auto

subsection \<open>Adding and removing one membership\<close>

lemma add_then_remove_exact:
  assumes "\<not> is_member (userSegments st) userId segmentId"
    and "map_of (userSegments st) userId \<noteq> Some []"
  shows "after_remove userId segmentId (after_add userId segmentId st) = st"
proof (cases "userId = [] \<or> segmentId = [] \<or> \<not> reads_array (userSegments st) userId")
  case True
  then show ?thesis by (auto simp: after_add_eq after_remove_eq)
next
  case False
  let ?cur = "lookup_segs (userSegments st) userId"
  from assms(1) have fresh: "segmentId \<notin> set ?cur" by (simp add: is_member_def)
  show ?thesis
  proof (cases "?cur = []")
    case True
    with assms(2) have "map_of (userSegments st) userId = None"
      by (auto dest: lookup_segs_Nil_cases)
    then have "userId \<notin> fst ` set (userSegments st)"
      by (simp add: map_of_eq_None_iff)
    with False True show ?thesis
      by (simp add: after_add_eq after_remove_eq lookup_segs_update reads_array_update
          delete_update_same)
  next
    case nonempty: False
    then have "map_of (userSegments st) userId = Some ?cur" by (rule lookup_segs_Some)
    then have "AList.update userId ?cur (userSegments st) = userSegments st"
      by (rule update_triv)
    with False fresh nonempty show ?thesis
      by (simp add: after_add_eq after_remove_eq lookup_segs_update reads_array_update
          filter_fresh)
  qed
qed

lemma add_then_remove_key_absent:
  assumes "userId \<noteq> []" "segmentId \<noteq> []"
    and "set (lookup_segs (userSegments st) userId) \<subseteq> {segmentId}"
  shows "map_of (userSegments (after_remove userId segmentId (after_add userId segmentId st)))
           userId = None"
proof (cases "reads_array (userSegments st) userId")
  case False
  then show ?thesis by (simp add: after_add_eq after_remove_eq not_reads_array_None)
next
  case True
  with assms show ?thesis
    by (auto simp: after_add_eq after_remove_eq lookup_segs_update reads_array_update
        delete_conv' filter_neq_Nil_iff)
qed

lemma not_member_after_remove:
  assumes "userId \<noteq> []" "segmentId \<noteq> []"
  shows "\<not> is_member (userSegments (after_remove userId segmentId st)) userId segmentId"
proof (cases "reads_array (userSegments st) userId")
  case False
  then show ?thesis
    by (simp add: after_remove_eq is_member_def not_reads_array_lookup)
next
  case True
  with assms show ?thesis
    by (auto simp: after_remove_eq is_member_def lookup_segs_update lookup_segs_delete)
qed

lemma add_twice:
  "after_add u s (after_add u s st) = after_add u s st"
  by (simp add: after_add_eq lookup_segs_update reads_array_update)

lemma remove_twice:
  "after_remove u s (after_remove u s st) = after_remove u s st"
proof (cases "reads_array (userSegments (after_remove u s st)) u")
  case False
  then show ?thesis by (simp add: after_remove_eq[of u s "after_remove u s st"])
next
  case True
  then show ?thesis
    by (simp add: after_remove_eq lookup_segs_update lookup_segs_delete delete_idem
        split: if_splits)
qed

section \<open>The claims\<close>

subsection \<open>C1: adding a user to a segment that is not in the store\<close>

text \<open>
  C1 states that \<^verbatim>\<open>addUserToSegment\<close> fails with \<open>NotFoundError\<close> and leaves the
  membership object unchanged when the segment id is not the id of a stored segment. In
  the initial state no segment is stored, yet adding user 42 to \<^verbatim>\<open>gone\<close> succeeds and
  records the membership.
\<close>

theorem add_user_not_found_counterexample:
  "''gone'' \<notin> seg_id ` set (segments initial_state) \<and>
   handleAddUserToSegment ''42'' ''gone'' initial_state =
     Inr \<lparr>segments = [], userSegments = [(''42'', [''gone''])]\<rparr> \<and>
   handleAddUserToSegment ''42'' ''gone'' initial_state \<noteq> Inl NotFoundError \<and>
   userSegments (after_add ''42'' ''gone'' initial_state) \<noteq> userSegments initial_state"
  by (simp add: after_add_def handleAddUserToSegment_def initial_state_def prop_read_def
      object_prototype_def state_after_def)

text \<open>
  C1, amended: the handler never consults the segment store. For a segment id that is not
  stored, the call succeeds whenever both arguments are non-empty and the user id is an
  own key of the membership object or does not name a member of \<^verbatim>\<open>Object.prototype\<close>
  (every numeric id is of that kind): the segments are unchanged, the user is a member of
  that segment afterwards, and no other membership changes. With an empty argument the
  call fails with \<open>ValidationError\<close>. With a non-empty user id that is not an own key
  and names a member of \<^verbatim>\<open>Object.prototype\<close>, such as \<^verbatim>\<open>constructor\<close>, the updater
  throws \<open>TypeError\<close> and nothing is recorded.
\<close>

theorem add_user_without_liveness_check:
  assumes "segmentId \<notin> seg_id ` set (segments st)"
  shows "(userId \<noteq> [] \<and> segmentId \<noteq> [] \<and>
          (userId \<in> fst ` set (userSegments st) \<or> userId \<notin> fst ` set object_prototype) \<longrightarrow>
            (\<exists>st'. handleAddUserToSegment userId segmentId st = Inr st' \<and>
               segments st' = segments st \<and>
               is_member (userSegments st') userId segmentId \<and>
               (\<forall>u s. (u, s) \<noteq> (userId, segmentId) \<longrightarrow>
                  is_member (userSegments st') u s = is_member (userSegments st) u s))) \<and>
         (userId = [] \<or> segmentId = [] \<longrightarrow>
            handleAddUserToSegment userId segmentId st = Inl ValidationError) \<and>
         (userId \<noteq> [] \<and> segmentId \<noteq> [] \<and>
          userId \<notin> fst ` set (userSegments st) \<and> userId \<in> fst ` set object_prototype \<longrightarrow>
            handleAddUserToSegment userId segmentId st = Inl TypeError \<and>
            after_add userId segmentId st = st)"
proof (intro conjI impI)
  assume a: "userId \<noteq> [] \<and> segmentId \<noteq> [] \<and>
          (userId \<in> fst ` set (userSegments st) \<or> userId \<notin> fst ` set object_prototype)"
  then have "reads_array (userSegments st) userId" by (simp add: reads_array_iff)
  then have "prop_read (userSegments st) userId = Array (lookup_segs (userSegments st) userId)"
    by (rule prop_read_Array)
  with a show "\<exists>st'. handleAddUserToSegment userId segmentId st = Inr st' \<and>
               segments st' = segments st \<and>
               is_member (userSegments st') userId segmentId \<and>
               (\<forall>u s. (u, s) \<noteq> (userId, segmentId) \<longrightarrow>
                  is_member (userSegments st') u s = is_member (userSegments st) u s)"
    by (auto simp: handleAddUserToSegment_def Let_def is_member_def lookup_segs_update)
next
  assume "userId = [] \<or> segmentId = []"
  then show "handleAddUserToSegment userId segmentId st = Inl ValidationError"
    by (auto simp: handleAddUserToSegment_def)
next
  assume a: "userId \<noteq> [] \<and> segmentId \<noteq> [] \<and>
          userId \<notin> fst ` set (userSegments st) \<and> userId \<in> fst ` set object_prototype"
  then have "\<not> reads_array (userSegments st) userId" by (simp add: reads_array_iff)
  then obtain len where "prop_read (userSegments st) userId = NotArray len"
    using prop_read_NotArray by blast
  with a show "handleAddUserToSegment userId segmentId st = Inl TypeError"
    by (simp add: handleAddUserToSegment_def Let_def)
next
  assume a: "userId \<noteq> [] \<and> segmentId \<noteq> [] \<and>
          userId \<notin> fst ` set (userSegments st) \<and> userId \<in> fst ` set object_prototype"
  then have "\<not> reads_array (userSegments st) userId" by (simp add: reads_array_iff)
  then show "after_add userId segmentId st = st" by (simp add: after_add_eq)
qed

theorem add_user_without_liveness_check_witness:
  "''gone'' \<notin> seg_id ` set (segments beta_state) \<and>
   ''42'' \<in> fst ` set (userSegments beta_state) \<and>
   ''constructor'' \<notin> fst ` set (userSegments beta_state) \<and>
   ''constructor'' \<in> fst ` set object_prototype \<and>
   (\<exists>st'. handleAddUserToSegment ''42'' ''gone'' beta_state = Inr st' \<and>
      is_member (userSegments st') ''42'' ''gone'' \<and>
      is_member (userSegments st') ''42'' ''s1'') \<and>
   handleAddUserToSegment ''constructor'' ''gone'' beta_state = Inl TypeError \<and>
   handleAddUserToSegment '''' ''gone'' beta_state = Inl ValidationError"
proof -
  have h: "''gone'' \<notin> seg_id ` set (segments beta_state)"
    by (simp add: beta_state_def beta_segment_def)
  have own: "''42'' \<in> fst ` set (userSegments beta_state)"
    by (simp add: beta_state_def)
  have notown: "''constructor'' \<notin> fst ` set (userSegments beta_state)"
    by (simp add: beta_state_def)
  have inh: "''constructor'' \<in> fst ` set object_prototype"
    by (simp add: object_prototype_def)
  have m: "is_member (userSegments beta_state) ''42'' ''s1''"
    by (simp add: beta_state_def is_member_def lookup_segs_def)
  from add_user_without_liveness_check [OF h, of "''42''"] own m
  have ok: "\<exists>st'. handleAddUserToSegment ''42'' ''gone'' beta_state = Inr st' \<and>
      is_member (userSegments st') ''42'' ''gone'' \<and>
      is_member (userSegments st') ''42'' ''s1''"
    by auto
  from add_user_without_liveness_check [OF h, of "''constructor''"] notown inh
  have thrown: "handleAddUserToSegment ''constructor'' ''gone'' beta_state = Inl TypeError"
    by simp
  from add_user_without_liveness_check [OF h, of "''''"]
  have invalid: "handleAddUserToSegment '''' ''gone'' beta_state = Inl ValidationError"
    by simp
  from h own notown inh ok thrown invalid show ?thesis by (intro conjI)
qed

subsection \<open>C2: memberships refer to stored segments\<close>

text \<open>
  C2 states that every core operation preserves the invariant that each segment id held by
  a user is the id of a stored segment. The invariant holds in the initial state and is
  broken by adding user 42 to a segment id that is not stored.
\<close>

theorem memberships_live_counterexample:
  "memberships_live initial_state \<and>
   ''gone'' \<notin> seg_id ` set (segments initial_state) \<and>
   \<not> memberships_live (after_add ''42'' ''gone'' initial_state)"
  by (simp add: memberships_live_def initial_state_def after_add_def handleAddUserToSegment_def
      state_after_def lookup_segs_def prop_read_def object_prototype_def)

text \<open>
  C2, amended: the invariant holds initially and is preserved by creating, updating and
  deleting a segment and by removing a user from a segment, whatever the arguments; adding
  a user and the percentage assignment preserve it when their segment id is the id of a
  stored segment.
\<close>

theorem memberships_live_preserved:
  "memberships_live initial_state \<and>
   (memberships_live st \<longrightarrow>
      memberships_live
        (state_after (handleCreateSegment nameArg descriptionArg newId created updated st) st) \<and>
      memberships_live
        (state_after (handleUpdateSegment ident newName newDescription now st) st) \<and>
      memberships_live (handleDeleteSegment ident nameArg confirmed st) \<and>
      memberships_live (after_remove userId segmentId st) \<and>
      (segmentId \<in> seg_id ` set (segments st) \<longrightarrow>
         memberships_live (after_add userId segmentId st) \<and>
         memberships_live
           (state_after_assign (handleAssignRandomUsers segmentId percentage st) st)))"
proof (intro conjI impI)
  show "memberships_live initial_state"
    by (simp add: memberships_live_def initial_state_def)
next
  assume "memberships_live st"
  then show "memberships_live
      (state_after (handleCreateSegment nameArg descriptionArg newId created updated st) st)"
    by (auto simp: memberships_live_iff handleCreateSegment_def state_after_def Let_def)
next
  assume "memberships_live st"
  then show "memberships_live
      (state_after (handleUpdateSegment ident newName newDescription now st) st)"
    unfolding memberships_live_iff seg_ids_after_update userSegments_after_update .
next
  assume "memberships_live st"
  then show "memberships_live (handleDeleteSegment ident nameArg confirmed st)"
    by (auto simp: memberships_live_iff handleDeleteSegment_def is_member_cascade)
next
  assume "memberships_live st"
  then show "memberships_live (after_remove userId segmentId st)"
    unfolding memberships_live_iff segments_after_remove
    using is_member_after_remove[of userId segmentId st] by metis
next
  assume "memberships_live st" and "segmentId \<in> seg_id ` set (segments st)"
  then show "memberships_live (after_add userId segmentId st)"
    unfolding memberships_live_iff segments_after_add
    using is_member_after_add[of userId segmentId st] by metis
next
  assume "memberships_live st" and "segmentId \<in> seg_id ` set (segments st)"
  then show "memberships_live
      (state_after_assign (handleAssignRandomUsers segmentId percentage st) st)"
    unfolding memberships_live_iff segments_after_assign
    using is_member_after_assign[of segmentId percentage st] by metis
qed

theorem memberships_live_preserved_witness:
  "memberships_live beta_state \<and> ''s1'' \<in> seg_id ` set (segments beta_state) \<and>
   memberships_live
     (state_after (handleCreateSegment ''GAMMA'' '''' ''s2'' ''t2'' ''t2'' beta_state) beta_state) \<and>
   memberships_live
     (state_after (handleUpdateSegment ''s1'' ''ALPHA'' '''' ''t3'' beta_state) beta_state) \<and>
   memberships_live (handleDeleteSegment ''s1'' ''BETA'' True beta_state) \<and>
   memberships_live (after_remove ''42'' ''s1'' beta_state) \<and>
   memberships_live (after_add ''7'' ''s1'' beta_state) \<and>
   memberships_live (state_after_assign (handleAssignRandomUsers ''s1'' 30 beta_state) beta_state)"
proof -
  have h1: "memberships_live beta_state"
    by (simp add: memberships_live_def beta_state_def beta_segment_def lookup_segs_def)
  have h2: "''s1'' \<in> seg_id ` set (segments beta_state)"
    by (simp add: beta_state_def beta_segment_def)
  from h1 h2 memberships_live_preserved
    [where st = beta_state and nameArg = "''GAMMA''" and descriptionArg = "''''"
       and newId = "''s2''" and created = "''t2''" and updated = "''t2''"
       and ident = "''s1''" and newName = "''ALPHA''" and newDescription = "''''"
       and now = "''t3''" and confirmed = True and userId = "''42''"
       and segmentId = "''s1''" and percentage = 30]
    memberships_live_preserved
    [where st = beta_state and userId = "''7''" and segmentId = "''s1''"]
  show ?thesis by simp
qed

subsection \<open>C3: creating a segment whose trimmed name is taken\<close>

text \<open>
  C3 states that \<^verbatim>\<open>createSegment\<close> fails with \<open>DuplicateNameError\<close> when a stored
  segment already has the trimmed input name, so that no two segments share a name. The
  handler compares the stored names with the name as typed and then stores the trimmed
  name: with a segment \<^verbatim>\<open>A\<close> stored, creating \<^verbatim>\<open>" A"\<close> succeeds and the store holds two
  segments named \<^verbatim>\<open>A\<close>.
\<close>

theorem create_trimmed_duplicate_accepted:
  "handleCreateSegment '' A'' '''' ''id2'' ''t2'' ''t2''
     \<lparr>segments = [\<lparr>seg_id = ''id1'', name = ''A'', description = '''',
                    createdAt = ''t1'', updatedAt = ''t1''\<rparr>],
      userSegments = []\<rparr>
   = Inr \<lparr>segments = [\<lparr>seg_id = ''id1'', name = ''A'', description = '''',
                        createdAt = ''t1'', updatedAt = ''t1''\<rparr>,
                      \<lparr>seg_id = ''id2'', name = ''A'', description = '''',
                        createdAt = ''t2'', updatedAt = ''t2''\<rparr>],
          userSegments = []\<rparr>"
  by (simp add: handleCreateSegment_def trim_def is_ws_def)

subsection \<open>C4: the percentage assignment and the count it reports\<close>

text \<open>
  The membership half of C4 holds: for a non-empty segment id and a percentage from 0 to
  100 the assignment succeeds, and afterwards each candidate user from 1 to 1000 is a member
  of the segment exactly when its id modulo 100 is below the percentage. The counter of
  the loop, had it been read after the loop, is the number of candidates that were not
  members before and are members afterwards.
\<close>

lemma assign_random_membership:
  assumes "segmentId \<noteq> []" and "0 \<le> percentage" and "percentage \<le> 100"
  shows "\<exists>st'. handleAssignRandomUsers segmentId percentage st = Inr (0, st') \<and>
     (\<forall>u \<in> {1..1000}. is_member (userSegments st') (property_key u) segmentId
                          \<longleftrightarrow> int (u mod 100) < percentage)"
proof -
  let ?m1 = "fst (fold (assign_user segmentId percentage) allPossibleUserIds (userSegments st, 0))"
  let ?st1 = "st\<lparr>userSegments := ?m1\<rparr>"
  have first: "handleAssignRandomUsers segmentId percentage st = Inr (0, ?st1)"
    using assms by (rule handleAssignRandomUsers_ok)
  have target: "\<forall>u \<in> {1..1000}. is_member (userSegments ?st1) (property_key u) segmentId
                          \<longleftrightarrow> int (u mod 100) < percentage"
    by (simp add: is_member_fold_assign_target)
  show ?thesis
    by (intro exI[of _ ?st1] conjI first target)
qed

lemma loop_counter_counts_new_members:
  "snd (fold (assign_user segmentId percentage) allPossibleUserIds (m, 0)) =
     length (filter (\<lambda>u. \<not> is_member m (property_key u) segmentId \<and>
                is_member (fst (fold (assign_user segmentId percentage) allPossibleUserIds (m, 0)))
                  (property_key u) segmentId)
               [1..<1001])"
proof -
  let ?m1 = "fst (fold (assign_user segmentId percentage) allPossibleUserIds (m, 0))"
  have "snd (fold (assign_user segmentId percentage) allPossibleUserIds (m, 0)) =
      length (filter (\<lambda>u. int (u mod 100) < percentage \<and>
                 segmentId \<notin> set (lookup_segs m (property_key u))) allPossibleUserIds)"
    using fold_assign_count[OF distinct_allPossibleUserIds, of segmentId percentage m 0]
    by simp
  also have "\<dots> = length (filter (\<lambda>u. \<not> is_member m (property_key u) segmentId \<and>
                               is_member ?m1 (property_key u) segmentId)
                     allPossibleUserIds)"
  proof (rule arg_cong[where f = length], rule filter_cong[OF refl])
    fix u
    assume "u \<in> set allPossibleUserIds"
    then have "u \<in> {1..1000}" by (simp add: set_allPossibleUserIds)
    then have "is_member ?m1 (property_key u) segmentId = (int (u mod 100) < percentage)"
      by (simp add: is_member_fold_assign_target)
    then show "(int (u mod 100) < percentage \<and>
                 segmentId \<notin> set (lookup_segs m (property_key u))) =
               (\<not> is_member m (property_key u) segmentId \<and>
                 is_member ?m1 (property_key u) segmentId)"
      by (auto simp: is_member_def)
  qed
  finally show ?thesis by (simp only: allPossibleUserIds_upt)
qed

text \<open>
  C4 also states that the returned count equals the number of candidates that were not
  members before the call and are members after it. The handler reads its counter before
  the queued updater has run. With the segment \<^verbatim>\<open>s1\<close> stored, no membership recorded and
  percentage 100, the call makes all 1000 candidates members, the counter of the loop
  ends at 1000, and the count reported is 0.
\<close>

theorem assign_random_reports_zero:
  "''s1'' \<in> seg_id ` set (segments fresh_beta_state) \<and>
   (\<exists>st'. handleAssignRandomUsers ''s1'' 100 fresh_beta_state = Inr (0, st') \<and>
      length (filter (\<lambda>u. \<not> is_member (userSegments fresh_beta_state) (property_key u) ''s1'' \<and>
                          is_member (userSegments st') (property_key u) ''s1'')
                [1..<1001]) = 1000) \<and>
   snd (fold (assign_user ''s1'' 100) allPossibleUserIds (userSegments fresh_beta_state, 0))
     = 1000"
proof -
  let ?m0 = "userSegments fresh_beta_state"
  let ?m1 = "fst (fold (assign_user ''s1'' 100) allPossibleUserIds (?m0, 0))"
  let ?st1 = "fresh_beta_state\<lparr>userSegments := ?m1\<rparr>"
  have live: "''s1'' \<in> seg_id ` set (segments fresh_beta_state)"
    by (simp add: fresh_beta_state_def beta_segment_def)
  have first: "handleAssignRandomUsers ''s1'' 100 fresh_beta_state = Inr (0, ?st1)"
    by (rule handleAssignRandomUsers_ok) simp_all
  have all_new: "filter (\<lambda>u. \<not> is_member ?m0 (property_key u) ''s1'' \<and>
                          is_member ?m1 (property_key u) ''s1'') [1..<1001] = [1..<1001]"
  proof (rule filter_True, intro ballI conjI)
    fix u :: nat
    assume "u \<in> set [1..<1001]"
    then have u: "u \<in> {1..1000}" by auto
    show "\<not> is_member ?m0 (property_key u) ''s1''"
      by (simp add: fresh_beta_state_def is_member_def lookup_segs_def)
    have "int (u mod 100) < 100" by simp
    with u show "is_member ?m1 (property_key u) ''s1''"
      by (simp only: is_member_fold_assign_target)
  qed
  have n: "length (filter (\<lambda>u. \<not> is_member ?m0 (property_key u) ''s1'' \<and>
                          is_member (userSegments ?st1) (property_key u) ''s1'') [1..<1001]) = 1000"
    using all_new by simp
  have counter: "snd (fold (assign_user ''s1'' 100) allPossibleUserIds (?m0, 0)) = 1000"
    using loop_counter_counts_new_members[of "''s1''" 100 ?m0] all_new by simp
  have ex: "\<exists>st'. handleAssignRandomUsers ''s1'' 100 fresh_beta_state = Inr (0, st') \<and>
      length (filter (\<lambda>u. \<not> is_member ?m0 (property_key u) ''s1'' \<and>
                          is_member (userSegments st') (property_key u) ''s1'')
                [1..<1001]) = 1000"
    by (intro exI[of _ ?st1] conjI first n)
  from live ex counter show ?thesis by (intro conjI)
qed

subsection \<open>C5: assigning twice\<close>

text \<open>
  C5: for a non-empty segment id and a percentage from 0 to 100, the assignment succeeds
  with some count and state, and a second call with the same arguments on that state
  returns count 0 and the very same state.
\<close>

theorem assign_random_twice:
  assumes "segmentId \<noteq> []" and "0 \<le> percentage" and "percentage \<le> 100"
  shows "\<exists>cnt st'. handleAssignRandomUsers segmentId percentage st = Inr (cnt, st') \<and>
           handleAssignRandomUsers segmentId percentage st' = Inr (0, st')"
proof -
  let ?m1 = "fst (fold (assign_user segmentId percentage) allPossibleUserIds (userSegments st, 0))"
  let ?st1 = "st\<lparr>userSegments := ?m1\<rparr>"
  have first: "handleAssignRandomUsers segmentId percentage st = Inr (0, ?st1)"
    using assms by (rule handleAssignRandomUsers_ok)
  have "\<forall>u \<in> set allPossibleUserIds. settled segmentId percentage ?m1 u"
    by (simp add: settled_after_fold)
  then have "fold (assign_user segmentId percentage) allPossibleUserIds (?m1, 0) = (?m1, 0)"
    by (rule fold_assign_settled)
  then have "handleAssignRandomUsers segmentId percentage ?st1 = Inr (0, ?st1)"
    using assms by (simp add: handleAssignRandomUsers_ok)
  with first show ?thesis by blast
qed

theorem assign_random_twice_witness:
  "''s1'' \<in> seg_id ` set (segments beta_state) \<and>
   (\<exists>cnt st'. handleAssignRandomUsers ''s1'' 30 beta_state = Inr (cnt, st') \<and>
           handleAssignRandomUsers ''s1'' 30 st' = Inr (0, st'))"
  using assign_random_twice [of "''s1''" 30 beta_state]
  by (simp add: beta_state_def beta_segment_def)

subsection \<open>C6: deleting a segment\<close>

text \<open>
  C6: after a confirmed \<^verbatim>\<open>deleteSegment\<close> of any id, no user is a member of that id, no
  key of the membership object holds an empty array (neither as read by key nor as an
  entry), and the lookup of any user returns no segment with that id (a lookup that throws
  returns no segment at all).
\<close>

theorem delete_segment_cascades:
  "(\<forall>u. \<not> is_member (userSegments (handleDeleteSegment ident nameArg True st)) u ident) \<and>
   (\<forall>u. map_of (userSegments (handleDeleteSegment ident nameArg True st)) u \<noteq> Some []) \<and>
   (\<forall>(u, xs) \<in> set (userSegments (handleDeleteSegment ident nameArg True st)). xs \<noteq> []) \<and>
   (\<forall>u. \<forall>s \<in> set (found_segments
                       (handleLookup u (segments (handleDeleteSegment ident nameArg True st))
                          (userSegments (handleDeleteSegment ident nameArg True st)))).
        seg_id s \<noteq> ident)"
  by (auto simp: handleDeleteSegment_def is_member_cascade cascade_no_empty handleLookup_def
      found_segments_def Let_def split: js_value.splits if_splits
      dest: cascade_entries_nonempty)

theorem delete_segment_cascades_witness:
  "''s1'' \<in> seg_id ` set (segments beta_state) \<and>
   is_member (userSegments beta_state) ''42'' ''s1'' \<and>
   handleLookup ''42'' (segments beta_state) (userSegments beta_state)
     = Inr ([beta_segment], NoMessage) \<and>
   \<not> is_member (userSegments (handleDeleteSegment ''s1'' ''BETA'' True beta_state)) ''42'' ''s1'' \<and>
   map_of (userSegments (handleDeleteSegment ''s1'' ''BETA'' True beta_state)) ''42'' \<noteq> Some [] \<and>
   handleLookup ''42''
     (segments (handleDeleteSegment ''s1'' ''BETA'' True beta_state))
     (userSegments (handleDeleteSegment ''s1'' ''BETA'' True beta_state)) = Inr ([], NoSegments)"
proof -
  have live: "''s1'' \<in> seg_id ` set (segments beta_state)"
    by (simp add: beta_state_def beta_segment_def)
  have before: "is_member (userSegments beta_state) ''42'' ''s1''"
    by (simp add: beta_state_def is_member_def lookup_segs_def)
  have found: "handleLookup ''42'' (segments beta_state) (userSegments beta_state)
                 = Inr ([beta_segment], NoMessage)"
    by (simp add: beta_state_def beta_segment_def prop_read_def handleLookup_def)
  from delete_segment_cascades [of "''s1''" "''BETA''" beta_state]
  have "\<not> is_member (userSegments (handleDeleteSegment ''s1'' ''BETA'' True beta_state))
            ''42'' ''s1''"
    and "map_of (userSegments (handleDeleteSegment ''s1'' ''BETA'' True beta_state)) ''42''
           \<noteq> Some []"
    by blast+
  moreover have "handleLookup ''42''
     (segments (handleDeleteSegment ''s1'' ''BETA'' True beta_state))
     (userSegments (handleDeleteSegment ''s1'' ''BETA'' True beta_state)) = Inr ([], NoSegments)"
    by (simp add: handleDeleteSegment_def beta_state_def beta_segment_def handleLookup_def
        cascadeDeleteSegment_def cascade_user_def lookup_segs_def prop_read_def
        object_prototype_def)
  ultimately show ?thesis using live before found by (intro conjI)
qed

subsection \<open>C7: adding, then removing\<close>

text \<open>
  C7 states that adding a user to a segment and then removing them restores the membership
  object for every starting state. When the user is already a member, adding changes
  nothing and removing then deletes the membership that was there before: from the state
  where user 42 is in \<^verbatim>\<open>s1\<close>, the pair of calls leaves an empty membership object.
\<close>

theorem add_remove_roundtrip_counterexample:
  "is_member (userSegments beta_state) ''42'' ''s1'' \<and>
   userSegments (after_remove ''42'' ''s1'' (after_add ''42'' ''s1'' beta_state)) = [] \<and>
   userSegments (after_remove ''42'' ''s1'' (after_add ''42'' ''s1'' beta_state))
     \<noteq> userSegments beta_state"
  by (simp add: after_add_def after_remove_def handleAddUserToSegment_def
      handleRemoveUserFromSegment_def state_after_def lookup_segs_def is_member_def
      prop_read_def beta_state_def)

text \<open>
  C7, amended: when the user is not yet a member of the segment and the user's key does
  not hold an empty array, adding and then removing restores the state exactly. For
  non-empty arguments the user is not a member of the segment after the pair of calls,
  and the user's key is absent afterwards if the user had no other membership.
\<close>

theorem add_remove_roundtrip:
  "(\<not> is_member (userSegments st) userId segmentId \<and>
    map_of (userSegments st) userId \<noteq> Some [] \<longrightarrow>
      after_remove userId segmentId (after_add userId segmentId st) = st) \<and>
   (userId \<noteq> [] \<and> segmentId \<noteq> [] \<longrightarrow>
      \<not> is_member (userSegments (after_remove userId segmentId (after_add userId segmentId st)))
          userId segmentId) \<and>
   (userId \<noteq> [] \<and> segmentId \<noteq> [] \<and>
    set (lookup_segs (userSegments st) userId) \<subseteq> {segmentId} \<longrightarrow>
      map_of (userSegments (after_remove userId segmentId (after_add userId segmentId st)))
        userId = None)"
  by (simp add: add_then_remove_exact add_then_remove_key_absent not_member_after_remove)

theorem add_remove_roundtrip_witness:
  "\<not> is_member (userSegments beta_state) ''7'' ''s1'' \<and>
   map_of (userSegments beta_state) ''7'' \<noteq> Some [] \<and>
   set (lookup_segs (userSegments beta_state) ''7'') \<subseteq> {''s1''} \<and>
   after_remove ''7'' ''s1'' (after_add ''7'' ''s1'' beta_state) = beta_state \<and>
   map_of (userSegments (after_remove ''7'' ''s1'' (after_add ''7'' ''s1'' beta_state))) ''7''
     = None"
proof -
  have h1: "\<not> is_member (userSegments beta_state) ''7'' ''s1''"
    by (simp add: beta_state_def is_member_def lookup_segs_def)
  have h2: "map_of (userSegments beta_state) ''7'' \<noteq> Some []"
    by (simp add: beta_state_def)
  have h3: "set (lookup_segs (userSegments beta_state) ''7'') \<subseteq> {''s1''}"
    by (simp add: beta_state_def lookup_segs_def)
  have n: "''7'' \<noteq> [] \<and> ''s1'' \<noteq> []" by simp
  from add_remove_roundtrip [of beta_state "''7''" "''s1''"] h1 h2
  have a: "after_remove ''7'' ''s1'' (after_add ''7'' ''s1'' beta_state) = beta_state"
    by blast
  from add_remove_roundtrip [of beta_state "''7''" "''s1''"] h3 n
  have b: "map_of (userSegments (after_remove ''7'' ''s1'' (after_add ''7'' ''s1'' beta_state)))
             ''7'' = None"
    by blast
  from h1 h2 h3 a b show ?thesis by (intro conjI)
qed

subsection \<open>C8: adding twice, removing twice\<close>

text \<open>
  C8: for every user id, segment id and state, adding twice leaves the same state as
  adding once, and removing twice leaves the same state as removing once.
\<close>

theorem add_remove_idempotent:
  "after_add u s (after_add u s st) = after_add u s st \<and>
   after_remove u s (after_remove u s st) = after_remove u s st"
  by (simp add: add_twice remove_twice)

theorem add_remove_idempotent_witness:
  "after_add ''7'' ''s1'' (after_add ''7'' ''s1'' beta_state) = after_add ''7'' ''s1'' beta_state \<and>
   after_remove ''42'' ''s1'' (after_remove ''42'' ''s1'' beta_state)
     = after_remove ''42'' ''s1'' beta_state \<and>
   userSegments (after_add ''7'' ''s1'' beta_state) = [(''42'', [''s1'']), (''7'', [''s1''])] \<and>
   userSegments (after_remove ''42'' ''s1'' beta_state) = []"
  using add_remove_idempotent [of "''7''" "''s1''" beta_state]
    add_remove_idempotent [of "''42''" "''s1''" beta_state]
  by (simp add: after_add_def after_remove_def handleAddUserToSegment_def
      handleRemoveUserFromSegment_def state_after_def prop_read_def object_prototype_def
      beta_state_def)

subsection \<open>C9: updating a segment that is not in the store\<close>

text \<open>
  C9 states that \<^verbatim>\<open>updateSegment\<close> fails with \<open>NotFoundError\<close> for an id that is not
  stored. In the state with the one segment \<^verbatim>\<open>s1\<close>, updating the id \<^verbatim>\<open>zz\<close> with a
  fresh, non-empty name reports success.
\<close>

theorem update_missing_counterexample:
  "''zz'' \<notin> seg_id ` set (segments beta_state) \<and> trim ''GAMMA'' \<noteq> [] \<and>
   \<not> list_ex (\<lambda>s. name s = ''GAMMA'') (segments beta_state) \<and>
   handleUpdateSegment ''zz'' ''GAMMA'' ''d'' ''t'' beta_state = Inr beta_state \<and>
   handleUpdateSegment ''zz'' ''GAMMA'' ''d'' ''t'' beta_state \<noteq> Inl NotFoundError"
  by (simp add: handleUpdateSegment_def beta_state_def beta_segment_def trim_def is_ws_def)

text \<open>
  C9, amended: for an id that is not stored and a name that does not trim to the empty
  string and is not the name of a stored segment, \<^verbatim>\<open>updateSegment\<close> reports success and
  returns the state unchanged.
\<close>

theorem update_missing_reports_success:
  assumes "ident \<notin> seg_id ` set (segments st)"
    and "trim newName \<noteq> []"
    and "\<not> list_ex (\<lambda>s. name s = newName) (segments st)"
  shows "handleUpdateSegment ident newName newDescription now st = Inr st"
proof -
  from assms(1) have "\<forall>s \<in> set (segments st). \<not> seg_id s = ident" by auto
  then have "map (\<lambda>s. if seg_id s = ident
                  then s\<lparr>name := trim newName, description := trim newDescription,
                         updatedAt := now\<rparr>
                  else s) (segments st) = segments st"
    by (rule map_no_match)
  with assms(2,3) show ?thesis
    by (auto simp: handleUpdateSegment_def list_ex_iff)
qed

theorem update_missing_reports_success_witness:
  "''zz'' \<notin> seg_id ` set (segments beta_state) \<and> trim '' GAMMA '' \<noteq> [] \<and>
   \<not> list_ex (\<lambda>s. name s = '' GAMMA '') (segments beta_state) \<and>
   handleUpdateSegment ''zz'' '' GAMMA '' ''d'' ''t'' beta_state = Inr beta_state"
proof -
  have h1: "''zz'' \<notin> seg_id ` set (segments beta_state)"
    by (simp add: beta_state_def beta_segment_def)
  have h2: "trim '' GAMMA '' \<noteq> []" by (simp add: trim_def is_ws_def)
  have h3: "\<not> list_ex (\<lambda>s. name s = '' GAMMA '') (segments beta_state)"
    by (simp add: beta_state_def beta_segment_def)
  from update_missing_reports_success [OF h1 h2 h3, of "''d''" "''t''"] h1 h2 h3
  show ?thesis by simp
qed

subsection \<open>C10: what the percentage assignment leaves alone\<close>

text \<open>
  C10: for every segment id, percentage and state, the state after the assignment (the
  old state when the call is rejected) has the same membership of every user in every
  other segment, the same entry for every key that is not the decimal form of a candidate
  from 1 to 1000, and the same segments.
\<close>

theorem assign_random_frame:
  "(\<forall>u t. t \<noteq> segmentId \<longrightarrow>
      is_member (userSegments (state_after_assign
                   (handleAssignRandomUsers segmentId percentage st) st)) u t
        = is_member (userSegments st) u t) \<and>
   (\<forall>u. u \<notin> property_key ` {1..1000} \<longrightarrow>
      map_of (userSegments (state_after_assign
                 (handleAssignRandomUsers segmentId percentage st) st)) u
        = map_of (userSegments st) u) \<and>
   segments (state_after_assign (handleAssignRandomUsers segmentId percentage st) st)
     = segments st"
  using fold_assign_other[of _ allPossibleUserIds segmentId percentage "userSegments st" 0]
  by (simp add: userSegments_after_assign segments_after_assign is_member_fold_assign_other
      set_allPossibleUserIds)

theorem assign_random_frame_witness:
  "''s2'' \<noteq> ''s1'' \<and> ''1001'' \<notin> property_key ` {1..1000} \<and>
   is_member (userSegments (state_after_assign
      (handleAssignRandomUsers ''s1'' 30 two_segment_state) two_segment_state)) ''42'' ''s2'' \<and>
   map_of (userSegments (state_after_assign
      (handleAssignRandomUsers ''s1'' 30 two_segment_state) two_segment_state)) ''1001''
     = Some [''s1'']"
proof -
  have h1: "''s2'' \<noteq> ''s1''" by simp
  have k: "property_key 1001 = ''1001''" by (simp add: property_key.simps digit_char_def)
  have h2: "''1001'' \<notin> property_key ` {1..1000}"
  proof
    assume "''1001'' \<in> property_key ` {1..1000}"
    then obtain u where "u \<in> {1..1000}" and "property_key u = property_key 1001"
      using k by auto
    then show False by (auto dest: property_key_inj)
  qed
  have m: "is_member (userSegments two_segment_state) ''42'' ''s2''"
    by (simp add: two_segment_state_def is_member_def lookup_segs_def)
  have e: "map_of (userSegments two_segment_state) ''1001'' = Some [''s1'']"
    by (simp add: two_segment_state_def)
  from assign_random_frame [of "''s1''" 30 two_segment_state] h1 h2 m e show ?thesis
    by simp
qed

end
